theory Spec2Isabelle
  imports Main "HOL-Library.Sublist"
begin

section \<open>Python values\<close>

text \<open>
  The values that travel untyped through the program: the result of
  \<open>Database.get_id\<close> (a fetched row or \<open>None\<close>), the entries of
  \<open>FaceDatabase.names\<close>, and the values of a face dictionary.
\<close>

datatype pyval =
    PyNone
  | PyInt int
  | PyStr string
  | PyTuple "pyval list"

section \<open>The relational store (voice\_processing/database/database.py)\<close>

text \<open>
  Table \<open>face_notes (id INTEGER PRIMARY KEY AUTOINCREMENT, name, notes, category)\<close>.
  The rows are kept in rowid order, the order in which SQLite scans a table without an
  index on the searched column; \<open>seq\<close> is the largest rowid handed out so far
  (AUTOINCREMENT never reuses one).
\<close>

record row =
  rid :: int
  rname :: string
  rnotes :: string
  rcategory :: string

record database =
  rows :: "row list"
  seq :: int

definition create_table :: database where
  "create_table = \<lparr>rows = [], seq = 0\<rparr>"

definition store_notes :: "database \<Rightarrow> string \<Rightarrow> string \<Rightarrow> string \<Rightarrow> database" where
  "store_notes db name notes category =
     \<lparr>rows = rows db @ [\<lparr>rid = seq db + 1, rname = name, rnotes = notes, rcategory = category\<rparr>],
      seq = seq db + 1\<rparr>"

text \<open>\<open>cursor.fetchone()\<close> of \<open>SELECT id ... WHERE name = ?\<close>: the first matching row, as a
  tuple of its selected columns, or \<open>None\<close>.\<close>

definition select_id_where_name :: "database \<Rightarrow> string \<Rightarrow> pyval list" where
  "select_id_where_name db name =
     map (\<lambda>r. PyTuple [PyInt (rid r)]) (filter (\<lambda>r. rname r = name) (rows db))"

definition fetchone :: "pyval list \<Rightarrow> pyval" where
  "fetchone rs = (case rs of [] \<Rightarrow> PyNone | r # _ \<Rightarrow> r)"

text \<open>Python truthiness of the values above (\<open>result if result else None\<close>).\<close>

fun truthy :: "pyval \<Rightarrow> bool" where
  "truthy PyNone = False"
| "truthy (PyInt i) = (i \<noteq> 0)"
| "truthy (PyStr s) = (s \<noteq> [])"
| "truthy (PyTuple vs) = (vs \<noteq> [])"

definition get_id :: "database \<Rightarrow> string \<Rightarrow> pyval" where
  "get_id db name =
     (let result = fetchone (select_id_where_name db name)
      in if truthy result then result else PyNone)"

definition update_row :: "int \<Rightarrow> string \<Rightarrow> string \<Rightarrow> string \<Rightarrow> row \<Rightarrow> row" where
  "update_row i name notes category r =
     (if rid r = i then r\<lparr>rname := name, rnotes := notes, rcategory := category\<rparr> else r)"

text \<open>
  \<open>edit\<close> either raises or returns the store after the UPDATE together with its Python
  result. SQLite holds integers in 64 bits, signed: \<open>cursor.execute\<close> raises
  \<open>OverflowError\<close> when the id bound to the statement is outside that range, before
  anything is written.
\<close>

datatype db_error = OverflowError

definition sqlite_int :: "int \<Rightarrow> bool" where
  "sqlite_int i = (- (2 ^ 63) \<le> i \<and> i < 2 ^ 63)"

definition edit ::
  "database \<Rightarrow> int \<Rightarrow> string \<Rightarrow> string \<Rightarrow> string \<Rightarrow> db_error + database \<times> bool" where
  "edit db i name notes category =
     (if sqlite_int i
      then Inr (db\<lparr>rows := map (update_row i name notes category) (rows db)\<rparr>, True)
      else Inl OverflowError)"

section \<open>Python string operations\<close>

text \<open>
  Strings are byte strings here, so \<open>str.lower\<close> is modelled on the ASCII letters and
  \<open>str.strip\<close> on the ASCII white space.
\<close>

definition lower_char :: "char \<Rightarrow> char" where
  "lower_char c =
     (case map_of (zip ''ABCDEFGHIJKLMNOPQRSTUVWXYZ'' ''abcdefghijklmnopqrstuvwxyz'') c of
        None \<Rightarrow> c | Some d \<Rightarrow> d)"

definition lower :: "string \<Rightarrow> string" where
  "lower s = map lower_char s"

text \<open>\<open>sub in s\<close>: \<open>sub\<close> occurs in \<open>s\<close> as a contiguous substring.\<close>

fun py_in :: "string \<Rightarrow> string \<Rightarrow> bool" where
  "py_in sub [] = (sub = [])"
| "py_in sub (c # cs) = (prefix sub (c # cs) \<or> py_in sub cs)"

definition is_space :: "char \<Rightarrow> bool" where
  "is_space c = (c \<in> set [CHR 0x09, CHR 0x0A, CHR 0x0B, CHR 0x0C, CHR 0x0D,
                            CHR 0x1C, CHR 0x1D, CHR 0x1E, CHR 0x1F, CHR 0x20])"

definition strip :: "string \<Rightarrow> string" where
  "strip s = rev (dropWhile is_space (rev (dropWhile is_space s)))"

text \<open>\<open>s.replace(old, new)\<close> for a non-empty \<open>old\<close>: the occurrences are replaced from the
  left, without overlap.\<close>

function replace :: "string \<Rightarrow> string \<Rightarrow> string \<Rightarrow> string" where
  "replace old new [] = []"
| "replace old new (c # cs) =
     (if old \<noteq> [] \<and> prefix old (c # cs)
      then new @ replace old new (drop (length old) (c # cs))
      else c # replace old new cs)"
  by pat_completeness auto
termination
  by (relation "measure (\<lambda>(old, new, s). length s)") auto

section \<open>The registration dialog (voice\_processing/voice\_recognition.py)\<close>

text \<open>
  One call of \<open>get_voice_input\<close> records, saves and transcribes once. What the microphone,
  the disk and the transcription service did in that call is the environment's part:
  \<^item> \<open>NoRecording\<close>: \<open>record_audio\<close> gave \<open>None\<close> or no bytes;
  \<^item> \<open>SaveFailed\<close>: \<open>save_audio\<close> gave \<open>None\<close>;
  \<^item> \<open>TranscribeError\<close>: \<open>transcribe_audio\<close> gave \<open>None\<close>;
  \<^item> \<open>Transcribed t\<close>: \<open>transcribe_audio\<close> gave the text \<open>t\<close> (the empty string when the
    service had no result).
  The dialog reads a list of such captures, one per call. Every loop of the dialog takes
  a capture per iteration; when the list is used up the loop has not returned, which the
  functions below report as \<open>None\<close>.
\<close>

datatype capture = NoRecording | SaveFailed | TranscribeError | Transcribed string

definition get_voice_input :: "capture \<Rightarrow> string option" where
  "get_voice_input c =
     (case c of
        Transcribed result \<Rightarrow>
          Some (if py_in ''register'' (lower result)
                then strip (replace ''register'' '''' (lower result))
                else result)
      | _ \<Rightarrow> None)"

text \<open>
  The result is the answer, if one was understood, and the captures left. The Python
  function returns the answer alone; the response that decided it is kept beside the
  answer, so that it can be said what was confirmed.
\<close>

fun get_yes_no_response :: "capture list \<Rightarrow> (bool \<times> string) option \<times> capture list" where
  "get_yes_no_response [] = (None, [])"
| "get_yes_no_response (c # cs) =
     (case get_voice_input c of
        Some response \<Rightarrow>
          (if py_in ''yes'' (lower response) then (Some (True, response), cs)
           else if py_in ''no'' (lower response) then (Some (False, response), cs)
           else get_yes_no_response cs)
      | None \<Rightarrow> get_yes_no_response cs)"

text \<open>
  What the dialog shows and hears: \<open>Asked kind text\<close> is the call
  \<open>show_input_callback(kind, text)\<close>; \<open>Answered kind text response b\<close> records that the
  \<open>get_yes_no_response\<close> call that followed it returned \<open>b\<close>, on hearing \<open>response\<close>.
\<close>

datatype dialog_event = Asked string string | Answered string string string bool

lemma get_yes_no_response_length:
  "length (snd (get_yes_no_response cs)) \<le> length cs"
  by (induction cs) (auto split: option.splits)

lemma get_yes_no_response_rest:
  "(r, rest) = get_yes_no_response cs \<Longrightarrow> length rest \<le> length cs"
  using get_yes_no_response_length [of cs] by (metis snd_conv)

text \<open>
  The loops of \<open>prompt_for_name\<close>, \<open>prompt_for_notes\<close> and \<open>prompt_for_category\<close> are the
  same text up to the messages and the \<open>kind\<close> handed to the callback; \<open>prompt_loop\<close> is
  that loop, returning the confirmed transcript.
\<close>

function prompt_loop :: "string \<Rightarrow> capture list \<Rightarrow> string option \<times> capture list \<times> dialog_event list" where
  "prompt_loop kind [] = (None, [], [])"
| "prompt_loop kind (c # cs) =
     (case get_voice_input c of
        None \<Rightarrow> prompt_loop kind cs
      | Some text \<Rightarrow>
          if text \<noteq> '''' then
            (case get_yes_no_response cs of
               (None, rest) \<Rightarrow> (None, rest, [Asked kind text])
             | (Some (True, response), rest) \<Rightarrow>
                 (Some text, rest, [Asked kind text, Answered kind text response True])
             | (Some (False, response), rest) \<Rightarrow>
                 (case prompt_loop kind rest of
                    (r, rest', evs) \<Rightarrow>
                      (r, rest', Asked kind text # Answered kind text response False # evs)))
          else prompt_loop kind cs)"
  by pat_completeness auto
termination
  by (relation "measure (\<lambda>(kind, cs). length cs)")
     (auto dest: get_yes_no_response_rest simp: less_Suc_eq_le)

definition prompt_for_name :: "capture list \<Rightarrow> string option \<times> capture list \<times> dialog_event list" where
  "prompt_for_name cs = prompt_loop ''name'' cs"

definition prompt_for_notes :: "capture list \<Rightarrow> string option \<times> capture list \<times> dialog_event list" where
  "prompt_for_notes cs = prompt_loop ''notes'' cs"

definition prompt_for_category :: "capture list \<Rightarrow> string option \<times> capture list \<times> dialog_event list" where
  "prompt_for_category cs =
     (case prompt_loop ''category'' cs of
        (Some category, rest, evs) \<Rightarrow>
          (Some (if category \<noteq> '''' then category else ''Other''), rest, evs)
      | (None, rest, evs) \<Rightarrow> (None, rest, evs))"

text \<open>
  An explicit yes: a transcribed response that contains \<open>yes\<close> (in any letter case, the
  response being lower-cased before the test).
\<close>

definition says_yes :: "string \<Rightarrow> bool" where
  "says_yes response = sublist ''yes'' (lower response)"

text \<open>
  A field received an explicit yes confirmation: its value \<open>v\<close> was shown, and the answer to
  it was such a response.
\<close>

definition confirmed :: "string \<Rightarrow> string \<Rightarrow> dialog_event list \<Rightarrow> bool" where
  "confirmed kind v evs =
     (\<exists>response. Answered kind v response True \<in> set evs \<and> says_yes response)"

section \<open>The embedding store (face\_recognitionai/detect\_and\_recognition.py)\<close>

record face_database =
  encodings :: "pyval list"
  names :: "pyval list"

definition add_face :: "face_database \<Rightarrow> pyval \<Rightarrow> pyval \<Rightarrow> face_database" where
  "add_face fdb encoding ident =
     \<lparr>encodings = encodings fdb @ [encoding], names = names fdb @ [ident]\<rparr>"

section \<open>The integrated system (main.py)\<close>

text \<open>
  A recognition result is a dictionary with the keys \<open>box\<close>, \<open>name\<close>, \<open>encoding\<close>, \<open>notes\<close>
  and \<open>category\<close>. The fields of \<open>IntegratedFaceVoiceSystem\<close> that the registration
  workflow reads and writes are the three flags, the list of unknown faces and the two stores.
\<close>

type_synonym face = "string \<rightharpoonup> pyval"

record system =
  listening_for_wake_word :: bool
  registration_mode :: bool
  start_registration_requested :: bool
  unknown_faces :: "face list"
  sql_db :: database
  face_db :: face_database

text \<open>The state \<open>__init__\<close> leaves, over given stores.\<close>

definition init_system :: "database \<Rightarrow> face_database \<Rightarrow> system" where
  "init_system db fdb =
     \<lparr>listening_for_wake_word = True, registration_mode = False,
      start_registration_requested = False, unknown_faces = [],
      sql_db = db, face_db = fdb\<rparr>"

text \<open>\<open>VoiceRecognition.store_voice_notes\<close>, on the store shared with the system.\<close>

definition store_voice_notes :: "system \<Rightarrow> string \<Rightarrow> string \<Rightarrow> string \<Rightarrow> system" where
  "store_voice_notes st name notes category =
     st\<lparr>sql_db := store_notes (sql_db st) name notes category\<rparr>"

text \<open>The two assignments made under the lock when a registration ends.\<close>

definition reset_registration :: "system \<Rightarrow> system" where
  "reset_registration st = st\<lparr>registration_mode := False, listening_for_wake_word := True\<rparr>"

text \<open>
  How a call of \<open>register_new_face\<close> stands when the captures are used up:
  \<^item> \<open>InvalidFace\<close>: returned at once, the face dictionary lacked \<open>box\<close> or \<open>encoding\<close>;
  \<^item> \<open>NoName\<close>: returned after \<open>prompt_for_name\<close> gave an empty name;
  \<^item> \<open>Registered name notes category\<close>: returned after storing the record;
  \<^item> \<open>Waiting\<close>: not returned, a capture or confirmation loop is still asking.
  The state that comes with \<open>Waiting\<close> is the state at that moment.
\<close>

datatype outcome = InvalidFace | NoName | Registered string string string | Waiting

text \<open>\<open>x or d\<close> on strings.\<close>

definition str_or :: "string \<Rightarrow> string \<Rightarrow> string" where
  "str_or x d = (if x \<noteq> '''' then x else d)"

definition register_new_face ::
  "system \<Rightarrow> face \<Rightarrow> capture list \<Rightarrow> outcome \<times> system \<times> capture list \<times> dialog_event list" where
  "register_new_face st face_data cs =
     (if face_data = Map.empty \<or> face_data ''box'' = None \<or> face_data ''encoding'' = None
      then (InvalidFace, st, cs, [])
      else
        case prompt_for_name cs of
          (None, cs1, ev1) \<Rightarrow> (Waiting, st, cs1, ev1)
        | (Some name, cs1, ev1) \<Rightarrow>
            if name = '''' then (NoName, reset_registration st, cs1, ev1)
            else
              case prompt_for_notes cs1 of
                (None, cs2, ev2) \<Rightarrow> (Waiting, st, cs2, ev1 @ ev2)
              | (Some notes0, cs2, ev2) \<Rightarrow>
                  let notes = str_or notes0 '''' in
                  case prompt_for_category cs2 of
                    (None, cs3, ev3) \<Rightarrow> (Waiting, st, cs3, ev1 @ ev2 @ ev3)
                  | (Some category0, cs3, ev3) \<Rightarrow>
                      let category = str_or category0 ''Other'';
                          st1 = store_voice_notes st name notes category;
                          ident = get_id (sql_db st1) name;
                          st2 = st1\<lparr>face_db := add_face (face_db st1) (the (face_data ''encoding'')) ident\<rparr>
                      in (Registered name notes category, reset_registration st2, cs3, ev1 @ ev2 @ ev3))"

text \<open>
  The voice listener thread, one pass of its loop. \<open>display_state\<close> is the value read from
  \<open>ar_display.wake_word_listening\<close> at the top of the pass, \<open>detected\<close> the result of
  \<open>listen_for_wake_word\<close> should the pass call it. The pass returns the state it leaves and
  what it did, in order.
\<close>

datatype thread_event =
    LockAcquire
  | LockRelease
  | UpdateStatus bool
  | ListenForWakeWord
  | Sleep

definition voice_listener_pass :: "system \<Rightarrow> bool \<Rightarrow> bool \<Rightarrow> system \<times> thread_event list" where
  "voice_listener_pass st display_state detected =
     (let should_listen = (listening_for_wake_word st \<and> \<not> registration_mode st
                             \<and> length (unknown_faces st) > 0);
          publish = (if should_listen \<noteq> display_state then [UpdateStatus should_listen] else [])
      in if listening_for_wake_word st \<and> \<not> registration_mode st \<and> unknown_faces st \<noteq> [] then
           (if detected then
              (if \<not> registration_mode st \<and> unknown_faces st \<noteq> []
               then st\<lparr>listening_for_wake_word := False, registration_mode := True,
                       start_registration_requested := True\<rparr>
               else st)
            else st,
            [LockAcquire] @ publish @ [ListenForWakeWord, LockRelease, Sleep])
         else (st, [LockAcquire] @ publish @ [LockRelease, Sleep]))"

text \<open>Whether the lock is held when each event of a thread's trace happens.\<close>

fun lock_held :: "bool \<Rightarrow> thread_event list \<Rightarrow> (thread_event \<times> bool) list" where
  "lock_held h [] = []"
| "lock_held h (LockAcquire # es) = (LockAcquire, h) # lock_held True es"
| "lock_held h (LockRelease # es) = (LockRelease, h) # lock_held False es"
| "lock_held h (e # es) = (e, h) # lock_held h es"

text \<open>The calls that block: the detector, the user interface, the poll sleep.\<close>

fun blocking :: "thread_event \<Rightarrow> bool" where
  "blocking ListenForWakeWord = True"
| "blocking (UpdateStatus b) = True"
| "blocking Sleep = True"
| "blocking e = False"

text \<open>No blocking call of the trace is made with the lock held.\<close>

definition never_blocks_under_lock :: "thread_event list \<Rightarrow> bool" where
  "never_blocks_under_lock es = list_all (\<lambda>(e, h). \<not> (blocking e \<and> h)) (lock_held False es)"

text \<open>
  The main loop (\<open>run\<close>), one pass, in its three locked sections: the unknown faces are
  replaced by those of the current frame; the request flag is examined; after a
  registration the listening flag is set again.
\<close>

definition run_update_unknown :: "system \<Rightarrow> face list \<Rightarrow> system" where
  "run_update_unknown st recognition_results =
     st\<lparr>unknown_faces := filter (\<lambda>f. f ''name'' = Some (PyStr ''Unknown'')) recognition_results\<rparr>"

definition run_check_request :: "system \<Rightarrow> system \<times> face option" where
  "run_check_request st =
     (if start_registration_requested st \<and> unknown_faces st \<noteq> [] then
        (st\<lparr>start_registration_requested := False\<rparr>, Some (hd (unknown_faces st)))
      else if start_registration_requested st then
        (st\<lparr>start_registration_requested := False, registration_mode := False,
            listening_for_wake_word := True\<rparr>, None)
      else (st, None))"

definition run_after_register :: "system \<Rightarrow> system" where
  "run_after_register st = st\<lparr>listening_for_wake_word := True\<rparr>"

text \<open>
  Lines 344 to 373 of a pass: the request is examined and, if a face was taken, the
  dialog runs on the main thread. The result also says whether \<open>register_new_face\<close> was
  called.
\<close>

definition run_handoff ::
  "system \<Rightarrow> capture list \<Rightarrow> system \<times> capture list \<times> dialog_event list \<times> outcome option" where
  "run_handoff st cs =
     (case run_check_request st of
        (st1, Some face_to_register) \<Rightarrow>
          if face_to_register \<noteq> Map.empty then
            (case register_new_face st1 face_to_register cs of
               (Waiting, st2, cs', evs) \<Rightarrow> (st2, cs', evs, Some Waiting)
             | (out, st2, cs', evs) \<Rightarrow> (run_after_register st2, cs', evs, Some out))
          else (st1, cs, [], None)
      | (st1, None) \<Rightarrow> (st1, cs, [], None))"

section \<open>The wake-word detector (voice\_processing/voice\_activation.py)\<close>

text \<open>
  Audio data are byte strings. The collaborators of the detector are parameters: the
  voice-activity classifier, the transcription service, whether the audio device opens
  and whether the scratch file can be written. The disk is a map from paths to contents.
\<close>

type_synonym bytes = "nat list"

type_synonym filesystem = "string \<rightharpoonup> bytes"

datatype recognition = ApiError | Results "string list"

record audio_env =
  vad_is_speech :: "bytes \<Rightarrow> bool"
  recognize :: "bytes \<Rightarrow> recognition"
  can_open_stream :: bool
  can_write :: bool

record voice_activation =
  wake_word :: string
  speech_detected :: bool
  audio_buffer :: "bytes list"
  stream_open :: bool

definition chunk_size :: nat where
  "chunk_size = 16000 * 30 div 1000"

text \<open>\<open>VoiceActivation.__init__\<close>: the trigger phrase is kept in lower case.\<close>

definition new_voice_activation :: "string \<Rightarrow> voice_activation" where
  "new_voice_activation phrase =
     \<lparr>wake_word = lower phrase, speech_detected = False, audio_buffer = [], stream_open = False\<rparr>"

definition process_audio_chunk ::
  "audio_env \<Rightarrow> voice_activation \<Rightarrow> bytes \<Rightarrow> voice_activation \<times> bytes list option" where
  "process_audio_chunk env va data =
     (if length data \<noteq> chunk_size * 2 then (va, None)
      else if vad_is_speech env data then
        (va\<lparr>speech_detected := True, audio_buffer := audio_buffer va @ [data]\<rparr>, None)
      else if speech_detected va then
        (if length (audio_buffer va) > 0
         then (va\<lparr>speech_detected := False\<rparr>, Some (audio_buffer va))
         else (va\<lparr>speech_detected := False, audio_buffer := []\<rparr>, None))
      else (va, None))"

definition scratch_path :: string where
  "scratch_path = ''recordings/recorded_audio.wav''"

definition save_audio :: "audio_env \<Rightarrow> filesystem \<Rightarrow> bytes list \<Rightarrow> string option \<times> filesystem" where
  "save_audio env fs frames =
     (if frames = [] then (None, fs)
      else if can_write env then (Some scratch_path, fs(scratch_path \<mapsto> concat frames))
      else (None, fs))"

definition transcribe_audio :: "audio_env \<Rightarrow> filesystem \<Rightarrow> string \<Rightarrow> string" where
  "transcribe_audio env fs audio_file =
     (case fs audio_file of
        None \<Rightarrow> ''''
      | Some content \<Rightarrow>
          (case recognize env content of
             ApiError \<Rightarrow> ''''
           | Results [] \<Rightarrow> ''''
           | Results (transcript # _) \<Rightarrow> lower transcript))"

definition reset_state :: "voice_activation \<Rightarrow> voice_activation" where
  "reset_state va = va\<lparr>speech_detected := False, audio_buffer := [], stream_open := False\<rparr>"

text \<open>
  The \<open>while\<close> loop of \<open>listen_for_wake_word\<close> over the chunks read before the listen
  window ends. The first component of the result says whether the loop returned \<open>True\<close>.
\<close>

fun listen_loop ::
  "audio_env \<Rightarrow> voice_activation \<Rightarrow> filesystem \<Rightarrow> bytes list
     \<Rightarrow> bool \<times> voice_activation \<times> filesystem" where
  "listen_loop env va fs [] = (False, va, fs)"
| "listen_loop env va fs (data # rest) =
     (case process_audio_chunk env va data of
        (va1, None) \<Rightarrow> listen_loop env va1 fs rest
      | (va1, Some audio_chunks) \<Rightarrow>
          if audio_chunks \<noteq> [] then
            (case save_audio env fs audio_chunks of
               (Some audio_file, fs1) \<Rightarrow>
                 (let text = transcribe_audio env fs1 audio_file
                  in if text \<noteq> '''' \<and> py_in (wake_word va1) (lower text)
                     then (True, reset_state va1, fs1)
                     else listen_loop env (va1\<lparr>audio_buffer := []\<rparr>) fs1 rest)
             | (None, fs1) \<Rightarrow> listen_loop env (va1\<lparr>audio_buffer := []\<rparr>) fs1 rest)
          else listen_loop env va1 fs rest)"

definition listen_for_wake_word ::
  "audio_env \<Rightarrow> voice_activation \<Rightarrow> filesystem \<Rightarrow> bytes list
     \<Rightarrow> bool \<times> voice_activation \<times> filesystem" where
  "listen_for_wake_word env va fs chunks =
     (if \<not> stream_open va \<and> \<not> can_open_stream env then (False, va, fs)
      else
        case listen_loop env (va\<lparr>stream_open := True, audio_buffer := [],
                                  speech_detected := False\<rparr>) fs chunks of
          (True, va1, fs1) \<Rightarrow> (True, va1, fs1)
        | (False, va1, fs1) \<Rightarrow>
            if speech_detected va1 \<and> audio_buffer va1 \<noteq> [] then
              (case save_audio env fs1 (audio_buffer va1) of
                 (Some audio_file, fs2) \<Rightarrow>
                   (let text = transcribe_audio env fs2 audio_file
                    in if text \<noteq> '''' \<and> py_in (wake_word va1) (lower text)
                       then (True, reset_state va1, fs2)
                       else (False, va1, fs2))
               | (None, fs2) \<Rightarrow> (False, va1, fs2))
            else (False, va1, fs1))"

text \<open>
  The voice-activity buffer on its own: the segments that the loop above takes out of
  \<open>process_audio_chunk\<close>, emptying the buffer after each one as the loop does, and the
  state the buffer is left in.
\<close>

fun collect_segments :: "audio_env \<Rightarrow> voice_activation \<Rightarrow> bytes list \<Rightarrow> bytes list list" where
  "collect_segments env va [] = []"
| "collect_segments env va (data # rest) =
     (case process_audio_chunk env va data of
        (va1, None) \<Rightarrow> collect_segments env va1 rest
      | (va1, Some audio_chunks) \<Rightarrow>
          if audio_chunks \<noteq> []
          then audio_chunks # collect_segments env (va1\<lparr>audio_buffer := []\<rparr>) rest
          else collect_segments env va1 rest)"

fun buffer_after :: "audio_env \<Rightarrow> voice_activation \<Rightarrow> bytes list \<Rightarrow> voice_activation" where
  "buffer_after env va [] = va"
| "buffer_after env va (data # rest) =
     (case process_audio_chunk env va data of
        (va1, None) \<Rightarrow> buffer_after env va1 rest
      | (va1, Some audio_chunks) \<Rightarrow>
          if audio_chunks \<noteq> []
          then buffer_after env (va1\<lparr>audio_buffer := []\<rparr>) rest
          else buffer_after env va1 rest)"

subsection \<open>What the specification calls a segment\<close>

text \<open>
  The maximal contiguous runs of the elements that satisfy \<open>P\<close>, in order: a run starts
  at an element that satisfies \<open>P\<close> and takes the elements after it for as long as they do.
\<close>

function speech_runs :: "('a \<Rightarrow> bool) \<Rightarrow> 'a list \<Rightarrow> 'a list list" where
  "speech_runs P [] = []"
| "speech_runs P (x # xs) =
     (if P x then takeWhile P (x # xs) # speech_runs P (dropWhile P xs)
      else speech_runs P xs)"
  by pat_completeness auto
termination
  by (relation "measure (\<lambda>(P, xs). length xs)")
     (auto simp: length_dropWhile_le le_imp_less_Suc)

text \<open>A chunk of the size the detector accepts (16-bit samples).\<close>

definition well_sized :: "bytes \<Rightarrow> bool" where
  "well_sized data = (length data = chunk_size * 2)"

text \<open>
  What the detector learns from one segment: the text of its scratch file, when the file
  could be written; the cases in which \<open>transcribe_audio\<close> answers the empty string give
  the transcript \<open>''''\<close>.
\<close>

definition segment_transcript :: "audio_env \<Rightarrow> bytes list \<Rightarrow> string option" where
  "segment_transcript env seg =
     (if can_write env then
        Some (case recognize env (concat seg) of
                ApiError \<Rightarrow> ''''
              | Results [] \<Rightarrow> ''''
              | Results (transcript # _) \<Rightarrow> lower transcript)
      else None)"

text \<open>The trigger phrase occurs in the text, letter case aside.\<close>

definition contains_phrase :: "string \<Rightarrow> string \<Rightarrow> bool" where
  "contains_phrase phrase t = sublist (lower phrase) (lower t)"

text \<open>
  The runs that a silence chunk has ended: all the maximal runs, except a last run that
  reaches the end of the input.
\<close>

definition ended_runs :: "('a \<Rightarrow> bool) \<Rightarrow> 'a list \<Rightarrow> 'a list list" where
  "ended_runs P xs =
     (if xs \<noteq> [] \<and> P (last xs) then butlast (speech_runs P xs) else speech_runs P xs)"

text \<open>The run still open at the end of the input, if there is one.\<close>

definition open_run :: "('a \<Rightarrow> bool) \<Rightarrow> 'a list \<Rightarrow> 'a list" where
  "open_run P xs = (if xs \<noteq> [] \<and> P (last xs) then last (speech_runs P xs) else [])"

text \<open>
  The states the buffer is in between two chunks: \<open>speech_detected\<close> is set exactly when
  chunks are buffered, and every buffered chunk was classified as speech.
\<close>

definition buffer_ok :: "audio_env \<Rightarrow> voice_activation \<Rightarrow> bool" where
  "buffer_ok env va =
     ((speech_detected va \<longleftrightarrow> audio_buffer va \<noteq> []) \<and>
      (\<forall>d\<in>set (audio_buffer va). vad_is_speech env d))"

text \<open>The detector's test on one segment: saved, transcribed to a text that is not
  empty, and the trigger phrase \<open>w\<close> found in it.\<close>

definition segment_hit :: "audio_env \<Rightarrow> string \<Rightarrow> bytes list \<Rightarrow> bool" where
  "segment_hit env w seg =
     (\<exists>t. segment_transcript env seg = Some t \<and> t \<noteq> [] \<and> py_in w (lower t))"

subsection \<open>Example inputs\<close>

text \<open>
  Two chunks of the accepted size, a classifier that tells them apart, and a
  transcription service that hears the same sentence in every file.
\<close>

definition speech_chunk :: bytes where
  "speech_chunk = replicate 960 1"

definition silence_chunk :: bytes where
  "silence_chunk = replicate 960 0"

definition loud :: "bytes \<Rightarrow> bool" where
  "loud data = (1 \<in> set data)"

definition hears :: "string \<Rightarrow> bytes \<Rightarrow> recognition" where
  "hears sentence content = Results [sentence]"

definition demo_env :: "string \<Rightarrow> audio_env" where
  "demo_env sentence =
     \<lparr>vad_is_speech = loud, recognize = hears sentence, can_open_stream = True, can_write = True\<rparr>"

subsection \<open>Example inputs of the registration workflow\<close>

definition demo_face :: face where
  "demo_face = [''box'' \<mapsto> PyTuple [PyInt 10, PyInt 20, PyInt 110, PyInt 140],
                ''name'' \<mapsto> PyStr ''Unknown'',
                ''encoding'' \<mapsto> PyTuple [PyInt 3, PyInt 1, PyInt 4]]"

definition demo_dialog :: "capture list" where
  "demo_dialog = [Transcribed ''Alice'', Transcribed ''Yes'',
                  Transcribed ''tall'', NoRecording, Transcribed ''yes please'',
                  Transcribed ''friend'', Transcribed ''yes'']"

definition demo_events :: "dialog_event list" where
  "demo_events = [Asked ''name'' ''Alice'', Answered ''name'' ''Alice'' ''Yes'' True,
                  Asked ''notes'' ''tall'', Answered ''notes'' ''tall'' ''yes please'' True,
                  Asked ''category'' ''friend'', Answered ''category'' ''friend'' ''yes'' True]"

definition empty_faces :: face_database where
  "empty_faces = \<lparr>encodings = [], names = []\<rparr>"

text \<open>
  A schedule of the two threads, each step one of their locked sections: the main loop's
  update of the unknown faces, a listener pass that detects the wake word, the main loop's
  examination of the request, the dialog, a second listener pass that detects the wake
  word, and the main loop's assignment after the dialog.
\<close>

definition race_schedule :: system where
  "race_schedule =
     (let s1 = run_update_unknown (init_system create_table empty_faces) [demo_face];
          s2 = fst (voice_listener_pass s1 False True);
          s3 = fst (run_check_request s2);
          s4 = fst (snd (register_new_face s3 demo_face demo_dialog));
          s5 = fst (voice_listener_pass s4 False True)
      in run_after_register s5)"

text \<open>The tables that \<open>create_table\<close>, \<open>store_notes\<close> and \<open>edit\<close> produce: the ids increase
  along the rows and none exceeds \<open>seq\<close>.\<close>

definition db_ok :: "database \<Rightarrow> bool" where
  "db_ok db = (sorted_wrt (<) (map rid (rows db)) \<and> (\<forall>r\<in>set (rows db). rid r \<le> seq db))"

section \<open>Properties of the relational store\<close>



lemma db_ok_create_table: "db_ok create_table"
  by (simp add: db_ok_def create_table_def)

lemma db_ok_store_notes: "db_ok db \<Longrightarrow> db_ok (store_notes db name notes category)"
  by (fastforce simp: db_ok_def store_notes_def sorted_wrt_append)

lemma rid_update_row: "rid (update_row i name notes category r) = rid r"
  by (simp add: update_row_def)

lemma db_ok_edit:
  "db_ok db \<Longrightarrow> edit db i name notes category = Inr (db', b) \<Longrightarrow> db_ok db'"
  by (auto simp: db_ok_def edit_def rid_update_row comp_def split: if_splits)

lemma get_id_filter:
  "get_id db name =
     (case filter (\<lambda>r. rname r = name) (rows db) of
        [] \<Rightarrow> PyNone | r # _ \<Rightarrow> PyTuple [PyInt (rid r)])"
  by (simp add: get_id_def select_id_where_name_def fetchone_def Let_def split: list.splits)

lemma first_match_least:
  "sorted_wrt (<) (map rid rs) \<Longrightarrow> filter Q rs = r # rest \<Longrightarrow>
   r \<in> set rs \<and> Q r \<and> (\<forall>r'\<in>set rs. Q r' \<longrightarrow> rid r \<le> rid r')"
proof (induction rs)
  case Nil
  then show ?case by simp
next
  case (Cons a rs)
  show ?case
  proof (cases "Q a")
    case True
    with Cons.prems have "r = a" by simp
    with True Cons.prems(1) show ?thesis by (auto simp: less_imp_le)
  next
    case False
    with Cons show ?thesis by auto
  qed
qed




section \<open>Properties of the registration dialog\<close>

lemma py_in_sublist: "py_in sub s = sublist sub s"
  by (induction s) (auto simp: sublist_Cons_right)

lemma get_yes_no_response_yes:
  "get_yes_no_response cs = (Some (True, response), rest) \<Longrightarrow> says_yes response"
  by (induction cs) (auto simp: py_in_sublist says_yes_def split: option.splits if_splits)

lemma prompt_loop_events:
  "prompt_loop kind cs = (r, rest, evs) \<Longrightarrow>
     (\<forall>k v response b. Answered k v response b \<in> set evs \<longrightarrow>
        k = kind \<and> (b \<longrightarrow> r = Some v \<and> says_yes response)) \<and>
     (\<forall>v. r = Some v \<longrightarrow> v \<noteq> [] \<and> confirmed kind v evs)"
proof (induction "length cs" arbitrary: cs r rest evs rule: less_induct)
  case less
  show ?case
  proof (cases cs)
    case Nil
    with less.prems show ?thesis by simp
  next
    case (Cons c cs')
    have shorter: "length cs' < length cs" using Cons by simp
    show ?thesis
    proof (cases "get_voice_input c")
      case None
      with Cons less.prems have "prompt_loop kind cs' = (r, rest, evs)" by simp
      from less.hyps [OF shorter this] show ?thesis .
    next
      case (Some t)
      show ?thesis
      proof (cases "t = []")
        case True
        with Some Cons less.prems have "prompt_loop kind cs' = (r, rest, evs)" by simp
        from less.hyps [OF shorter this] show ?thesis .
      next
        case False
        obtain a rest1 where y: "get_yes_no_response cs' = (a, rest1)"
          by (cases "get_yes_no_response cs'")
        show ?thesis
        proof (cases a)
          case None
          with y Some False Cons less.prems have "r = None" "evs = [Asked kind t]" by simp_all
          then show ?thesis by simp
        next
          case sa: (Some p)
          obtain b response where p: "p = (b, response)" by (cases p)
          show ?thesis
          proof (cases b)
            case True
            with sa p y Some False Cons less.prems
            have r: "r = Some t" and e: "evs = [Asked kind t, Answered kind t response True]"
              by simp_all
            from True sa p y have yes: "says_yes response"
              by (simp add: get_yes_no_response_yes)
            have "confirmed kind t evs" unfolding confirmed_def e using yes by auto
            with r e yes False show ?thesis by simp
          next
            case nb: False
            obtain r2 rest2 evs2 where pl: "prompt_loop kind rest1 = (r2, rest2, evs2)"
              by (cases "prompt_loop kind rest1") auto
            from y get_yes_no_response_length [of cs'] have "length rest1 \<le> length cs'" by simp
            with shorter have "length rest1 < length cs" by simp
            note ih = less.hyps [OF this pl]
            from less.prems Cons Some False y sa p nb pl
            have r: "r = r2" and e: "evs = Asked kind t # Answered kind t response False # evs2"
              by simp_all
            have c: "confirmed kind v evs2 \<Longrightarrow> confirmed kind v evs" for v
              unfolding confirmed_def e by auto
            from ih r e c show ?thesis by simp
          qed
        qed
      qed
    qed
  qed
qed



lemma prompt_loop_confirmed:
  assumes "prompt_loop kind cs = (r, rest, evs)"
  shows "confirmed kind v evs \<longleftrightarrow> r = Some v"
    and "k \<noteq> kind \<Longrightarrow> confirmed k v evs = False"
    and "r = Some v \<Longrightarrow> v \<noteq> []"
    and "\<forall>k v response. Answered k v response True \<in> set evs \<longrightarrow> says_yes response"
proof -
  note e = prompt_loop_events [OF assms]
  from e show "confirmed kind v evs \<longleftrightarrow> r = Some v" unfolding confirmed_def by blast
  from e show "k \<noteq> kind \<Longrightarrow> confirmed k v evs = False" unfolding confirmed_def by blast
  from e show "r = Some v \<Longrightarrow> v \<noteq> []" by blast
  from e show "\<forall>k v response. Answered k v response True \<in> set evs \<longrightarrow> says_yes response"
    by blast
qed




lemma register_new_face_commit:
  "register_new_face st face_data cs = (Registered n no c, st', cs', evs) \<Longrightarrow>
   sql_db st' = store_notes (sql_db st) n no c \<and>
   face_db st' = add_face (face_db st) (the (face_data ''encoding'')) (get_id (sql_db st') n)"
  by (auto simp: register_new_face_def Let_def store_voice_notes_def reset_registration_def
      split: if_splits option.splits prod.splits)

lemma get_voice_input_demo:
  "get_voice_input (Transcribed ''Alice'') = Some ''Alice''"
  "get_voice_input (Transcribed ''Yes'') = Some ''Yes''"
  "get_voice_input (Transcribed ''tall'') = Some ''tall''"
  "get_voice_input (Transcribed ''yes please'') = Some ''yes please''"
  "get_voice_input (Transcribed ''friend'') = Some ''friend''"
  "get_voice_input (Transcribed ''yes'') = Some ''yes''"
  "get_voice_input (Transcribed []) = Some []"
  "get_voice_input NoRecording = None"
  by (simp_all add: get_voice_input_def lower_def lower_char_def)

lemma yes_demo:
  "py_in ''yes'' (lower ''Yes'')" "py_in ''yes'' (lower ''yes please'')" "py_in ''yes'' (lower ''yes'')"
  "\<not> py_in ''yes'' (lower ''friend'')" "\<not> py_in ''no'' (lower ''friend'')"
  by (simp_all add: lower_def lower_char_def)

lemma demo_face_valid:
  "demo_face \<noteq> Map.empty" "demo_face ''box'' \<noteq> None" "demo_face ''encoding'' \<noteq> None"
  "the (demo_face ''encoding'') = PyTuple [PyInt 3, PyInt 1, PyInt 4]"
  "demo_face ''name'' = Some (PyStr ''Unknown'')"
  by (simp_all add: demo_face_def)

lemma prompt_demo:
  "prompt_for_name demo_dialog =
     (Some ''Alice'', [Transcribed ''tall'', NoRecording, Transcribed ''yes please'',
                       Transcribed ''friend'', Transcribed ''yes''],
      [Asked ''name'' ''Alice'', Answered ''name'' ''Alice'' ''Yes'' True])"
  "prompt_for_notes [Transcribed ''tall'', NoRecording, Transcribed ''yes please'',
                     Transcribed ''friend'', Transcribed ''yes''] =
     (Some ''tall'', [Transcribed ''friend'', Transcribed ''yes''],
      [Asked ''notes'' ''tall'', Answered ''notes'' ''tall'' ''yes please'' True])"
  "prompt_for_category [Transcribed ''friend'', Transcribed ''yes''] =
     (Some ''friend'', [],
      [Asked ''category'' ''friend'', Answered ''category'' ''friend'' ''yes'' True])"
  by (simp_all add: prompt_for_name_def prompt_for_notes_def prompt_for_category_def
      demo_dialog_def get_voice_input_demo yes_demo)

lemma register_demo:
  "register_new_face st demo_face demo_dialog =
     (Registered ''Alice'' ''tall'' ''friend'',
      reset_registration
        (st\<lparr>sql_db := store_notes (sql_db st) ''Alice'' ''tall'' ''friend'',
            face_db := add_face (face_db st) (PyTuple [PyInt 3, PyInt 1, PyInt 4])
                         (get_id (store_notes (sql_db st) ''Alice'' ''tall'' ''friend'') ''Alice'')\<rparr>),
      [], demo_events)"
  by (simp add: register_new_face_def demo_face_valid prompt_demo str_or_def
      store_voice_notes_def demo_events_def Let_def)



text \<open>
  C2 does not hold of the code. An empty transcript for the notes or the category is not
  accepted: the guard \<open>notes != ""\<close> sends it to the "transcription failed" branch, nothing
  is shown for confirmation and the field is captured again, so \<open>prompt_for_notes\<close> never
  returns the empty string and the default \<open>Other\<close> is never produced from an empty
  transcript. With the answers of the specification's scenario for the notes (an empty
  transcript, then "yes") the word "yes" itself becomes the notes.
\<close>

theorem empty_transcript_recaptured:
  "prompt_for_notes (Transcribed '''' # cs) = prompt_for_notes cs \<and>
   prompt_for_category (Transcribed '''' # cs) = prompt_for_category cs \<and>
   fst (prompt_for_notes cs) \<noteq> Some '''' \<and>
   prompt_for_notes [Transcribed '''', Transcribed ''yes'', Transcribed ''friend'', Transcribed ''yes'']
     = (Some ''yes'', [], [Asked ''notes'' ''yes'', Answered ''notes'' ''yes'' ''yes'' True])"
proof -
  have a: "prompt_loop kind (Transcribed '''' # cs) = prompt_loop kind cs" for kind
    by (simp add: get_voice_input_demo)
  obtain r rest evs where p: "prompt_loop ''notes'' cs = (r, rest, evs)"
    by (cases "prompt_loop ''notes'' cs") auto
  from prompt_loop_confirmed(3) [OF p, of "''''"] p have b: "fst (prompt_for_notes cs) \<noteq> Some ''''"
    by (auto simp: prompt_for_notes_def)
  have c: "prompt_for_notes [Transcribed '''', Transcribed ''yes'', Transcribed ''friend'', Transcribed ''yes'']
     = (Some ''yes'', [], [Asked ''notes'' ''yes'', Answered ''notes'' ''yes'' ''yes'' True])"
    by (simp add: prompt_for_notes_def get_voice_input_demo yes_demo)
  from a b c show ?thesis by (simp add: prompt_for_notes_def prompt_for_category_def)
qed

text \<open>
  C9. \<open>get_id\<close> returns the fetched row, the one-element tuple \<open>(id,)\<close>, when a row has
  the name, and \<open>None\<close> otherwise; on a table in rowid order the row is the one with the
  smallest id among those of that name. It never returns a bare integer. The value that
  \<open>register_new_face\<close> appends to the names of the embedding store is this tuple.
\<close>

theorem get_id_returns_row_tuple:
  "(db_ok db \<longrightarrow>
      (if \<exists>r\<in>set (rows db). rname r = name
       then \<exists>i. get_id db name = PyTuple [PyInt i] \<and>
                (\<exists>r\<in>set (rows db). rid r = i \<and> rname r = name) \<and>
                (\<forall>r\<in>set (rows db). rname r = name \<longrightarrow> i \<le> rid r)
       else get_id db name = PyNone)) \<and>
   (\<forall>i. get_id db name \<noteq> PyInt i) \<and>
   (register_new_face st face_data cs = (Registered n no c, st', cs', evs) \<longrightarrow>
      (\<exists>i. get_id (sql_db st') n = PyTuple [PyInt i] \<and>
           names (face_db st') = names (face_db st) @ [PyTuple [PyInt i]]))"
proof (intro conjI impI allI)
  assume ok: "db_ok db"
  show "if \<exists>r\<in>set (rows db). rname r = name
       then \<exists>i. get_id db name = PyTuple [PyInt i] \<and>
                (\<exists>r\<in>set (rows db). rid r = i \<and> rname r = name) \<and>
                (\<forall>r\<in>set (rows db). rname r = name \<longrightarrow> i \<le> rid r)
       else get_id db name = PyNone"
  proof (cases "filter (\<lambda>r. rname r = name) (rows db)")
    case Nil
    then have "\<not> (\<exists>r\<in>set (rows db). rname r = name)" by (auto simp: filter_empty_conv)
    with Nil show ?thesis by (simp add: get_id_filter)
  next
    case (Cons r rest)
    from ok have "sorted_wrt (<) (map rid (rows db))" by (simp add: db_ok_def)
    from first_match_least [OF this Cons]
    have "r \<in> set (rows db)" "rname r = name" "\<forall>r'\<in>set (rows db). rname r' = name \<longrightarrow> rid r \<le> rid r'"
      by auto
    with Cons show ?thesis by (auto simp: get_id_filter)
  qed
next
  fix i show "get_id db name \<noteq> PyInt i"
    by (simp add: get_id_filter split: list.splits)
next
  assume run: "register_new_face st face_data cs = (Registered n no c, st', cs', evs)"
  from register_new_face_commit [OF run]
  have s: "sql_db st' = store_notes (sql_db st) n no c"
    and f: "face_db st' = add_face (face_db st) (the (face_data ''encoding'')) (get_id (sql_db st') n)"
    by auto
  have "filter (\<lambda>r. rname r = n) (rows (sql_db st')) \<noteq> []"
    by (simp add: s store_notes_def filter_empty_conv)
  then obtain r rest where "filter (\<lambda>r. rname r = n) (rows (sql_db st')) = r # rest"
    by (cases "filter (\<lambda>r. rname r = n) (rows (sql_db st'))") auto
  then have "get_id (sql_db st') n = PyTuple [PyInt (rid r)]"
    by (simp add: get_id_filter)
  then obtain i where "get_id (sql_db st') n = PyTuple [PyInt i]" by blast
  with f show "\<exists>i. get_id (sql_db st') n = PyTuple [PyInt i] \<and>
           names (face_db st') = names (face_db st) @ [PyTuple [PyInt i]]"
    by (simp add: add_face_def)
qed

lemma get_id_demo:
  "get_id (store_notes (store_notes create_table ''Bob'' ''tall'' ''friend'') ''Bob'' ''short'' ''family'') ''Bob''
     = PyTuple [PyInt 1]"
  "get_id (store_notes (store_notes create_table ''Bob'' ''tall'' ''friend'') ''Bob'' ''short'' ''family'') ''Eve''
     = PyNone"
  "get_id (store_notes create_table ''Alice'' ''tall'' ''friend'') ''Alice'' = PyTuple [PyInt 1]"
  by (simp_all add: get_id_filter store_notes_def create_table_def)

theorem get_id_returns_row_tuple_witness:
  "db_ok (store_notes (store_notes create_table ''Bob'' ''tall'' ''friend'') ''Bob'' ''short'' ''family'') \<and>
   get_id (store_notes (store_notes create_table ''Bob'' ''tall'' ''friend'') ''Bob'' ''short'' ''family'') ''Bob''
     = PyTuple [PyInt 1] \<and>
   get_id (store_notes (store_notes create_table ''Bob'' ''tall'' ''friend'') ''Bob'' ''short'' ''family'') ''Bob''
     \<noteq> PyInt 1 \<and>
   register_new_face (init_system create_table empty_faces) demo_face demo_dialog =
     (Registered ''Alice'' ''tall'' ''friend'',
      fst (snd (register_new_face (init_system create_table empty_faces) demo_face demo_dialog)),
      [], demo_events) \<and>
   names (face_db (fst (snd (register_new_face (init_system create_table empty_faces)
                               demo_face demo_dialog)))) = [PyTuple [PyInt 1]]"
proof -
  let ?db = "store_notes (store_notes create_table ''Bob'' ''tall'' ''friend'') ''Bob'' ''short'' ''family''"
  let ?st = "init_system create_table empty_faces"
  let ?st' = "fst (snd (register_new_face ?st demo_face demo_dialog))"
  have ok: "db_ok ?db" by (simp add: db_ok_store_notes db_ok_create_table)
  have run: "register_new_face ?st demo_face demo_dialog =
     (Registered ''Alice'' ''tall'' ''friend'', ?st', [], demo_events)"
    by (simp add: register_demo)
  note inst = get_id_returns_row_tuple [of ?db "''Bob''" ?st demo_face demo_dialog
      "''Alice''" "''tall''" "''friend''" ?st' "[]" demo_events]
  from inst have ni: "get_id ?db ''Bob'' \<noteq> PyInt 1" by blast
  from inst run obtain i where i: "get_id (sql_db ?st') ''Alice'' = PyTuple [PyInt i]"
    "names (face_db ?st') = names (face_db ?st) @ [PyTuple [PyInt i]]" by blast
  have "sql_db ?st' = store_notes create_table ''Alice'' ''tall'' ''friend''"
    by (simp add: register_demo reset_registration_def init_system_def)
  with i(1) have "i = 1" by (simp add: get_id_demo)
  with i(2) have nm: "names (face_db ?st') = [PyTuple [PyInt 1]]"
    by (simp add: init_system_def empty_faces_def)
  from ok ni run nm show ?thesis by (simp add: get_id_demo)
qed

section \<open>Properties of the coordination flags\<close>

text \<open>
  C6. When the main loop finds the request flag set and the list of unknown faces empty, it
  clears the flag, leaves registration mode and allows listening again;
  \<open>register_new_face\<close> is not called, no capture is consumed, nothing is shown, and both
  stores are as they were.
\<close>

theorem abandoned_request_resets:
  assumes "start_registration_requested st" "unknown_faces st = []"
  shows "run_handoff st cs =
           (st\<lparr>start_registration_requested := False, registration_mode := False,
               listening_for_wake_word := True\<rparr>, cs, [], None) \<and>
         \<not> start_registration_requested (fst (run_handoff st cs)) \<and>
         \<not> registration_mode (fst (run_handoff st cs)) \<and>
         listening_for_wake_word (fst (run_handoff st cs)) \<and>
         sql_db (fst (run_handoff st cs)) = sql_db st \<and>
         face_db (fst (run_handoff st cs)) = face_db st"
  using assms by (simp add: run_handoff_def run_check_request_def)

theorem abandoned_request_resets_witness:
  "start_registration_requested
     ((init_system create_table empty_faces)\<lparr>listening_for_wake_word := False,
        registration_mode := True, start_registration_requested := True\<rparr>) \<and>
   unknown_faces
     ((init_system create_table empty_faces)\<lparr>listening_for_wake_word := False,
        registration_mode := True, start_registration_requested := True\<rparr>) = [] \<and>
   run_handoff
     ((init_system create_table empty_faces)\<lparr>listening_for_wake_word := False,
        registration_mode := True, start_registration_requested := True\<rparr>) demo_dialog
     = (init_system create_table empty_faces, demo_dialog, [], None)"
proof -
  let ?st = "(init_system create_table empty_faces)\<lparr>listening_for_wake_word := False,
        registration_mode := True, start_registration_requested := True\<rparr>"
  have a: "start_registration_requested ?st" by simp
  have b: "unknown_faces ?st = []" by (simp add: init_system_def)
  from abandoned_request_resets [OF a b, of demo_dialog] a b show ?thesis
    by (simp add: init_system_def)
qed

text \<open>
  C7 does not hold of the code. In a pass of the listener thread everything but the poll
  sleep is inside \<open>with self.lock\<close>: whenever the pass listens, the blocking call
  \<open>listen_for_wake_word\<close> is made with the lock held, and so is the status update sent to
  the display when the state to show has changed.
\<close>

theorem listener_holds_lock_while_blocking:
  assumes "listening_for_wake_word st" "\<not> registration_mode st" "unknown_faces st \<noteq> []"
  shows "\<not> never_blocks_under_lock (snd (voice_listener_pass st display_state detected)) \<and>
         (ListenForWakeWord, True)
            \<in> set (lock_held False (snd (voice_listener_pass st display_state detected))) \<and>
         (display_state \<or>
            (UpdateStatus True, True)
              \<in> set (lock_held False (snd (voice_listener_pass st display_state detected))))"
  using assms
  by (cases display_state) (simp_all add: voice_listener_pass_def never_blocks_under_lock_def)

theorem listener_holds_lock_while_blocking_witness:
  "listening_for_wake_word (run_update_unknown (init_system create_table empty_faces) [demo_face]) \<and>
   \<not> registration_mode (run_update_unknown (init_system create_table empty_faces) [demo_face]) \<and>
   unknown_faces (run_update_unknown (init_system create_table empty_faces) [demo_face]) \<noteq> [] \<and>
   \<not> never_blocks_under_lock (snd (voice_listener_pass
       (run_update_unknown (init_system create_table empty_faces) [demo_face]) False True)) \<and>
   lock_held False (snd (voice_listener_pass
       (run_update_unknown (init_system create_table empty_faces) [demo_face]) False True))
     = [(LockAcquire, False), (UpdateStatus True, True), (ListenForWakeWord, True),
        (LockRelease, True), (Sleep, False)]"
proof -
  let ?st = "run_update_unknown (init_system create_table empty_faces) [demo_face]"
  have a: "listening_for_wake_word ?st" "\<not> registration_mode ?st" "unknown_faces ?st \<noteq> []"
    by (simp_all add: run_update_unknown_def init_system_def demo_face_valid)
  from listener_holds_lock_while_blocking [OF a, of False True]
  have b: "\<not> never_blocks_under_lock (snd (voice_listener_pass ?st False True))" by blast
  have c: "lock_held False (snd (voice_listener_pass ?st False True))
     = [(LockAcquire, False), (UpdateStatus True, True), (ListenForWakeWord, True),
        (LockRelease, True), (Sleep, False)]"
    using a by (simp add: voice_listener_pass_def)
  from a b c show ?thesis by blast
qed

text \<open>
  C5 does not hold of the code. A schedule of the two threads from the initial state: the
  main loop sees an unknown face; the listener detects the wake word and requests a
  registration; the main loop takes the request and runs the dialog, which ends by leaving
  registration mode; before the main loop reaches its own \<open>listening_for_wake_word = True\<close>
  (line 371), the listener takes the lock, detects the wake word again and enters
  registration mode; then line 371 runs. In the state reached both \<open>registration_mode\<close> and
  \<open>listening_for_wake_word\<close> are true.
\<close>

theorem flags_invariant_broken_by_race:
  "snd (run_check_request (fst (voice_listener_pass
          (run_update_unknown (init_system create_table empty_faces) [demo_face]) False True)))
     = Some demo_face \<and>
   registration_mode race_schedule \<and> listening_for_wake_word race_schedule"
  by (simp add: race_schedule_def run_update_unknown_def init_system_def demo_face_valid
      voice_listener_pass_def run_check_request_def register_demo reset_registration_def
      run_after_register_def Let_def)

section \<open>Properties of the wake-word detector\<close>

lemma speech_runs_all: "xs \<noteq> [] \<Longrightarrow> \<forall>x\<in>set xs. P x \<Longrightarrow> speech_runs P xs = [xs]"
proof -
  assume ne: "xs \<noteq> []" and all: "\<forall>x\<in>set xs. P x"
  then obtain a list where xs: "xs = a # list" by (cases xs) auto
  from all xs have d: "dropWhile P list = []" and t: "takeWhile P list = list" by auto
  from all xs show ?thesis by (simp add: d t)
qed

lemma speech_runs_append:
  "b \<noteq> [] \<Longrightarrow> \<forall>x\<in>set b. P x \<Longrightarrow>
   speech_runs P (b @ ys) = (b @ takeWhile P ys) # speech_runs P (dropWhile P ys)"
  by (cases b) (auto simp: takeWhile_append2 dropWhile_append2)

lemma speech_runs_Nil_iff: "speech_runs P xs = [] \<longleftrightarrow> (\<forall>x\<in>set xs. \<not> P x)"
  by (induction xs) auto

lemma speech_runs_split:
  "b \<noteq> [] \<Longrightarrow> \<forall>x\<in>set b. P x \<Longrightarrow> \<not> P d \<Longrightarrow>
   speech_runs P (b @ d # ys) = b # speech_runs P ys"
  by (simp add: speech_runs_append)


lemma ended_runs_all: "\<forall>x\<in>set b. P x \<Longrightarrow> ended_runs P b = []"
  by (cases "b = []") (simp_all add: ended_runs_def speech_runs_all)

lemma ended_runs_silence: "\<not> P d \<Longrightarrow> ended_runs P (d # ys) = ended_runs P ys"
  by (simp add: ended_runs_def)

lemma ended_runs_split:
  assumes "b \<noteq> []" "\<forall>x\<in>set b. P x" "\<not> P d"
  shows "ended_runs P (b @ d # ys) = b # ended_runs P ys"
proof (cases "ys \<noteq> [] \<and> P (last ys)")
  case True
  then have "speech_runs P ys \<noteq> []"
    using speech_runs_Nil_iff [of P ys] last_in_set [of ys] by blast
  with True assms show ?thesis
    by (simp add: ended_runs_def speech_runs_split)
next
  case False
  with assms show ?thesis
    by (auto simp: ended_runs_def speech_runs_split)
qed

lemma collect_segments_runs:
  "buffer_ok env va \<Longrightarrow>
   collect_segments env va chunks =
     ended_runs (vad_is_speech env) (audio_buffer va @ filter well_sized chunks)"
proof (induction chunks arbitrary: va)
  case Nil
  then show ?case by (simp add: ended_runs_all buffer_ok_def)
next
  case (Cons d rest)
  show ?case
  proof (cases "well_sized d")
    case False
    with Cons show ?thesis
      by (simp add: process_audio_chunk_def well_sized_def)
  next
    case ws: True
    show ?thesis
    proof (cases "vad_is_speech env d")
      case True
      let ?va1 = "va\<lparr>speech_detected := True, audio_buffer := audio_buffer va @ [d]\<rparr>"
      from Cons.prems True have "buffer_ok env ?va1" by (simp add: buffer_ok_def)
      from Cons.IH [OF this] True ws show ?thesis
        by (simp add: process_audio_chunk_def well_sized_def)
    next
      case sil: False
      show ?thesis
      proof (cases "speech_detected va")
        case True
        let ?va1 = "va\<lparr>speech_detected := False, audio_buffer := []\<rparr>"
        have ok: "buffer_ok env ?va1" by (simp add: buffer_ok_def)
        from True Cons.prems have ne: "audio_buffer va \<noteq> []"
          and sp: "\<forall>x\<in>set (audio_buffer va). vad_is_speech env x"
          by (simp_all add: buffer_ok_def)
        from Cons.IH [OF ok] True sil ws ne show ?thesis
          by (simp add: process_audio_chunk_def well_sized_def ended_runs_split [OF ne sp sil])
      next
        case False
        with Cons.prems have e: "audio_buffer va = []" by (simp add: buffer_ok_def)
        from Cons.IH [OF Cons.prems] False sil ws e show ?thesis
          by (simp add: process_audio_chunk_def well_sized_def ended_runs_silence)
      qed
    qed
  qed
qed

lemma last_speech_runs_append:
  assumes "b \<noteq> []" "\<forall>x\<in>set b. P x" "\<not> P d" "ys \<noteq> []" "P (last ys)"
  shows "last (speech_runs P (b @ d # ys)) = last (speech_runs P ys)"
proof -
  have "speech_runs P ys \<noteq> []"
    using assms(4,5) speech_runs_Nil_iff [of P ys] last_in_set [of ys] by blast
  with assms show ?thesis by (simp add: speech_runs_split)
qed

lemma open_run_all: "\<forall>x\<in>set b. P x \<Longrightarrow> open_run P b = b"
  by (cases "b = []") (simp_all add: open_run_def speech_runs_all)

lemma open_run_silence: "\<not> P d \<Longrightarrow> open_run P (d # ys) = open_run P ys"
  by (simp add: open_run_def)

lemma open_run_split:
  assumes "b \<noteq> []" "\<forall>x\<in>set b. P x" "\<not> P d"
  shows "open_run P (b @ d # ys) = open_run P ys"
  using assms by (auto simp: open_run_def last_speech_runs_append)

lemma buffer_after_runs:
  "buffer_ok env va \<Longrightarrow>
   buffer_ok env (buffer_after env va chunks) \<and>
   audio_buffer (buffer_after env va chunks) =
     open_run (vad_is_speech env) (audio_buffer va @ filter well_sized chunks) \<and>
   wake_word (buffer_after env va chunks) = wake_word va \<and>
   stream_open (buffer_after env va chunks) = stream_open va"
proof (induction chunks arbitrary: va)
  case Nil
  then show ?case by (simp add: open_run_all buffer_ok_def)
next
  case (Cons d rest)
  show ?case
  proof (cases "well_sized d")
    case False
    with Cons show ?thesis
      by (simp add: process_audio_chunk_def well_sized_def)
  next
    case ws: True
    show ?thesis
    proof (cases "vad_is_speech env d")
      case True
      let ?va1 = "va\<lparr>speech_detected := True, audio_buffer := audio_buffer va @ [d]\<rparr>"
      from Cons.prems True have "buffer_ok env ?va1" by (simp add: buffer_ok_def)
      from Cons.IH [OF this] True ws show ?thesis
        by (simp add: process_audio_chunk_def well_sized_def)
    next
      case sil: False
      show ?thesis
      proof (cases "speech_detected va")
        case True
        let ?va1 = "va\<lparr>speech_detected := False, audio_buffer := []\<rparr>"
        have ok: "buffer_ok env ?va1" by (simp add: buffer_ok_def)
        from True Cons.prems have ne: "audio_buffer va \<noteq> []"
          and sp: "\<forall>x\<in>set (audio_buffer va). vad_is_speech env x"
          by (simp_all add: buffer_ok_def)
        from Cons.IH [OF ok] True sil ws ne show ?thesis
          by (simp add: process_audio_chunk_def well_sized_def open_run_split [OF ne sp sil])
      next
        case False
        with Cons.prems have e: "audio_buffer va = []" by (simp add: buffer_ok_def)
        from Cons.IH [OF Cons.prems] False sil ws e show ?thesis
          by (simp add: process_audio_chunk_def well_sized_def open_run_silence)
      qed
    qed
  qed
qed

lemma process_audio_chunk_wake_word:
  "wake_word (fst (process_audio_chunk env va d)) = wake_word va"
  by (simp add: process_audio_chunk_def)

lemma save_audio_Some:
  "save_audio env fs seg = (Some p, fs1) \<Longrightarrow>
   ((let t = transcribe_audio env fs1 p in t \<noteq> [] \<and> py_in w (lower t)) = segment_hit env w seg)"
  by (auto simp: save_audio_def transcribe_audio_def segment_hit_def segment_transcript_def
      Let_def split: if_splits)

lemma save_audio_None:
  "save_audio env fs seg = (None, fs1) \<Longrightarrow> seg \<noteq> [] \<Longrightarrow> \<not> segment_hit env w seg"
  by (auto simp: save_audio_def segment_hit_def segment_transcript_def split: if_splits)

lemma listen_loop_hit:
  "fst (listen_loop env va fs chunks) =
     (\<exists>seg\<in>set (collect_segments env va chunks). segment_hit env (wake_word va) seg)"
proof (induction chunks arbitrary: va fs)
  case Nil
  show ?case by simp
next
  case (Cons d rest)
  obtain va1 r where p: "process_audio_chunk env va d = (va1, r)" by (cases "process_audio_chunk env va d")
  have w: "wake_word va1 = wake_word va"
    using process_audio_chunk_wake_word [of env va d] p by simp
  show ?case
  proof (cases r)
    case None
    with p w Cons.IH [of va1 fs] show ?thesis by simp
  next
    case (Some seg)
    show ?thesis
    proof (cases "seg = []")
      case True
      with Some p w Cons.IH [of va1 fs] show ?thesis by simp
    next
      case False
      obtain f fs1 where sv: "save_audio env fs seg = (f, fs1)" by (cases "save_audio env fs seg")
      note ih = Cons.IH [of "va1\<lparr>audio_buffer := []\<rparr>" fs1]
      show ?thesis
      proof (cases f)
        case None
        with sv False have "\<not> segment_hit env (wake_word va) seg" by (simp add: save_audio_None)
        with None sv Some p w False ih show ?thesis by simp
      next
        case (Some pth)
        with sv have h: "(let t = transcribe_audio env fs1 pth
                          in t \<noteq> [] \<and> py_in (wake_word va) (lower t))
                         = segment_hit env (wake_word va) seg"
          by (simp add: save_audio_Some)
        show ?thesis
        proof (cases "segment_hit env (wake_word va) seg")
          case True
          with h Some sv \<open>r = Some seg\<close> p w False show ?thesis by (simp add: Let_def)
        next
          case nh: False
          with h Some sv \<open>r = Some seg\<close> p w False ih show ?thesis by (auto simp: Let_def)
        qed
      qed
    qed
  qed
qed

lemma listen_loop_state:
  "\<not> fst (listen_loop env va fs chunks) \<Longrightarrow>
   fst (snd (listen_loop env va fs chunks)) = buffer_after env va chunks"
proof (induction chunks arbitrary: va fs)
  case Nil
  show ?case by simp
next
  case (Cons d rest)
  obtain va1 r where p: "process_audio_chunk env va d = (va1, r)" by (cases "process_audio_chunk env va d")
  show ?case
  proof (cases r)
    case None
    with p Cons.prems Cons.IH [of va1 fs] show ?thesis by simp
  next
    case (Some seg)
    show ?thesis
    proof (cases "seg = []")
      case True
      with Some p Cons.prems Cons.IH [of va1 fs] show ?thesis by simp
    next
      case False
      obtain f fs1 where sv: "save_audio env fs seg = (f, fs1)" by (cases "save_audio env fs seg")
      note ih = Cons.IH [of "va1\<lparr>audio_buffer := []\<rparr>" fs1]
      show ?thesis
      proof (cases f)
        case None
        with sv Some p False ih Cons.prems show ?thesis by simp
      next
        case sm: (Some pth)
        with sv Some p False ih Cons.prems show ?thesis
          by (auto simp: Let_def split: if_splits)
      qed
    qed
  qed
qed

lemma filter_takeWhile_dropWhile:
  "filter P xs = takeWhile P xs @ filter P (dropWhile P xs)"
  by (induction xs) auto

lemma speech_runs_concat: "concat (speech_runs P xs) = filter P xs"
proof (induction P xs rule: speech_runs.induct)
  case (1 P)
  show ?case by simp
next
  case (2 P x xs)
  show ?case
  proof (cases "P x")
    case True
    with 2 filter_takeWhile_dropWhile [of P xs] show ?thesis by simp
  next
    case False
    with 2 show ?thesis by simp
  qed
qed

lemma speech_runs_nonempty: "[] \<notin> set (speech_runs P xs)"
  by (induction P xs rule: speech_runs.induct) auto

lemma segment_hit_contains:
  assumes "phrase \<noteq> []"
  shows "segment_hit env (lower phrase) seg =
    (\<exists>t. segment_transcript env seg = Some t \<and> contains_phrase phrase t)"
proof -
  have "sublist (lower phrase) (lower t) \<Longrightarrow> t \<noteq> []" for t
    using assms by (auto simp: lower_def)
  then show ?thesis
    by (auto simp: segment_hit_def contains_phrase_def py_in_sublist)
qed

lemma flush_hit:
  assumes "b \<noteq> []"
  shows "fst (case save_audio env fs b of
           (Some audio_file, fs2) \<Rightarrow>
             (let t = transcribe_audio env fs2 audio_file
              in if t \<noteq> [] \<and> py_in w (lower t) then (True, va', fs2) else (False, va, fs2))
         | (None, fs2) \<Rightarrow> (False, va, fs2)) = segment_hit env w b"
proof -
  obtain f fs2 where sv: "save_audio env fs b = (f, fs2)" by (cases "save_audio env fs b")
  show ?thesis
  proof (cases f)
    case None
    with sv assms show ?thesis by (simp add: save_audio_None)
  next
    case (Some p)
    with sv save_audio_Some [of env fs b p fs2 w] show ?thesis by (auto simp: Let_def)
  qed
qed

text \<open>
  C3. Over the chunks read in one listen window, \<open>listen_for_wake_word\<close> answers \<open>True\<close>
  exactly when some speech segment has a transcript that contains the trigger phrase, letter
  case aside. The segments are the maximal runs of speech chunks among the chunks of the
  accepted size, the run still open when the window ends included (the final flush); a
  segment has a transcript when its scratch file could be written. The phrase is the
  configured one, not empty, and the audio stream is open or can be opened.
\<close>

theorem listen_for_wake_word_detects:
  assumes w: "wake_word va = lower phrase" and ne: "phrase \<noteq> []"
    and st: "stream_open va \<or> can_open_stream env"
  shows "fst (listen_for_wake_word env va fs chunks) =
     (\<exists>seg\<in>set (speech_runs (vad_is_speech env) (filter well_sized chunks)).
        \<exists>t. segment_transcript env seg = Some t \<and> contains_phrase phrase t)"
proof -
  let ?P = "vad_is_speech env"
  let ?xs = "filter well_sized chunks"
  let ?runs = "speech_runs ?P ?xs"
  let ?va0 = "va\<lparr>stream_open := True, audio_buffer := [], speech_detected := False\<rparr>"
  let ?hit = "segment_hit env (lower phrase)"
  have ok: "buffer_ok env ?va0" by (simp add: buffer_ok_def)
  have w0: "wake_word ?va0 = lower phrase" using w by simp
  have col: "collect_segments env ?va0 chunks = ended_runs ?P ?xs"
    using collect_segments_runs [OF ok, of chunks] by simp
  have loop: "fst (listen_loop env ?va0 fs chunks) = (\<exists>seg\<in>set (ended_runs ?P ?xs). ?hit seg)"
    using listen_loop_hit [of env ?va0 fs chunks] col w0 by simp
  have goal: "fst (listen_for_wake_word env va fs chunks) = (\<exists>seg\<in>set ?runs. ?hit seg)"
  proof (cases "fst (listen_loop env ?va0 fs chunks)")
    case True
    then obtain va1 fs1 where r: "listen_loop env ?va0 fs chunks = (True, va1, fs1)"
      by (cases "listen_loop env ?va0 fs chunks") auto
    from True loop obtain seg where "seg \<in> set (ended_runs ?P ?xs)" "?hit seg" by blast
    then have "\<exists>seg\<in>set ?runs. ?hit seg"
      by (auto simp: ended_runs_def split: if_splits dest: in_set_butlastD)
    with r st show ?thesis by (simp add: listen_for_wake_word_def)
  next
    case False
    then obtain va1 fs1 where r: "listen_loop env ?va0 fs chunks = (False, va1, fs1)"
      by (cases "listen_loop env ?va0 fs chunks") auto
    from listen_loop_state [OF False] r have va1: "va1 = buffer_after env ?va0 chunks" by simp
    from buffer_after_runs [OF ok, of chunks] va1 w0
    have ok1: "buffer_ok env va1" and b1: "audio_buffer va1 = open_run ?P ?xs"
      and w1: "wake_word va1 = lower phrase" by simp_all
    from False loop have nohit: "\<forall>seg\<in>set (ended_runs ?P ?xs). \<not> ?hit seg" by simp
    show ?thesis
    proof (cases "?xs \<noteq> [] \<and> ?P (last ?xs)")
      case opn: True
      then have rne: "?runs \<noteq> []"
        using speech_runs_Nil_iff [of ?P ?xs] last_in_set [of ?xs] by blast
      then have "last ?runs \<noteq> []" using speech_runs_nonempty [of ?P ?xs] last_in_set by metis
      with b1 opn have bne: "audio_buffer va1 \<noteq> []" and bl: "audio_buffer va1 = last ?runs"
        by (simp_all add: open_run_def)
      from ok1 bne have sd: "speech_detected va1" by (simp add: buffer_ok_def)
      have res: "fst (listen_for_wake_word env va fs chunks) = ?hit (audio_buffer va1)"
        using r st sd bne flush_hit [OF bne, where env = env and fs = fs1 and w = "wake_word va1"
            and va' = "reset_state va1" and va = va1]
        by (auto simp: listen_for_wake_word_def w1)
      from opn nohit have nb: "\<forall>seg\<in>set (butlast ?runs). \<not> ?hit seg"
        by (simp add: ended_runs_def)
      have "set ?runs = set (butlast ?runs) \<union> {last ?runs}"
        using rne by (metis append_butlast_last_id set_append list.set(1,2) Un_commute insert_is_Un)
      with nb have "(\<exists>seg\<in>set ?runs. ?hit seg) = ?hit (last ?runs)" by auto
      with res bl show ?thesis by simp
    next
      case closed: False
      with b1 have "audio_buffer va1 = []" by (simp add: open_run_def)
      with r st have res: "\<not> fst (listen_for_wake_word env va fs chunks)"
        by (simp add: listen_for_wake_word_def)
      from closed nohit have "\<not> (\<exists>seg\<in>set ?runs. ?hit seg)" by (auto simp: ended_runs_def)
      with res show ?thesis by simp
    qed
  qed
  then show ?thesis by (simp add: segment_hit_contains [OF ne])
qed

subsection \<open>The example inputs\<close>

lemma chunk_facts:
  "well_sized speech_chunk" "well_sized silence_chunk" "loud speech_chunk" "\<not> loud silence_chunk"
  by (simp_all add: well_sized_def speech_chunk_def silence_chunk_def loud_def chunk_size_def)

lemma demo_env_simps:
  "vad_is_speech (demo_env s) = loud" "recognize (demo_env s) = hears s"
  "can_open_stream (demo_env s)" "can_write (demo_env s)"
  by (simp_all add: demo_env_def)

lemma lower_demo: "lower ''Register'' = ''register''" "lower ''Please REGISTER me'' = ''please register me''"
  by (simp_all add: lower_def lower_char_def)

lemma speech_runs_demo: "speech_runs loud (filter well_sized [silence_chunk, speech_chunk]) = [[speech_chunk]]"
  by (simp add: chunk_facts)

theorem listen_for_wake_word_detects_witness:
  "wake_word (new_voice_activation ''Register'') = lower ''Register'' \<and> ''Register'' \<noteq> [] \<and>
   (stream_open (new_voice_activation ''Register'') \<or> can_open_stream (demo_env ''Please REGISTER me'')) \<and>
   fst (listen_for_wake_word (demo_env ''Please REGISTER me'') (new_voice_activation ''Register'')
         Map.empty [silence_chunk, speech_chunk]) = True"
proof -
  have w: "wake_word (new_voice_activation ''Register'') = lower ''Register''"
    by (simp add: new_voice_activation_def)
  have ne: "''Register'' \<noteq> []" by simp
  have st: "stream_open (new_voice_activation ''Register'') \<or> can_open_stream (demo_env ''Please REGISTER me'')"
    by (simp add: demo_env_simps)
  have tr: "segment_transcript (demo_env ''Please REGISTER me'') [speech_chunk] = Some ''please register me''"
    by (simp add: segment_transcript_def demo_env_simps hears_def lower_demo)
  have "contains_phrase ''Register'' ''please register me''"
    by (simp add: contains_phrase_def py_in_sublist [symmetric] lower_def lower_char_def)
  with tr speech_runs_demo listen_for_wake_word_detects [OF w ne st, of Map.empty "[silence_chunk, speech_chunk]"]
  have "fst (listen_for_wake_word (demo_env ''Please REGISTER me'') (new_voice_activation ''Register'')
         Map.empty [silence_chunk, speech_chunk])"
    by (simp add: demo_env_simps)
  with w ne st show ?thesis by simp
qed

lemma speech_runs_speech: "seg \<in> set (speech_runs P xs) \<Longrightarrow> d \<in> set seg \<Longrightarrow> P d"
  by (induction P xs rule: speech_runs.induct) (auto split: if_splits dest: set_takeWhileD)

lemma process_speech_chunk:
  "process_audio_chunk (demo_env s) va speech_chunk =
     (va\<lparr>speech_detected := True, audio_buffer := audio_buffer va @ [speech_chunk]\<rparr>, None)"
  using chunk_facts by (simp add: process_audio_chunk_def demo_env_simps well_sized_def)

text \<open>
  C4, as stated, fails: one speech chunk on its own is a maximal run of speech chunks, and
  the buffer emits no segment for it, since no silence chunk has ended the run.
\<close>

theorem collect_segments_counterexample:
  "collect_segments (demo_env ''hello'') (new_voice_activation ''register'') [speech_chunk] = [] \<and>
   speech_runs (vad_is_speech (demo_env ''hello'')) [speech_chunk] = [[speech_chunk]]"
  by (simp add: process_speech_chunk demo_env_simps chunk_facts)

text \<open>
  C4, amended. Fed with any sequence of chunks, the buffer emits exactly one segment for
  every maximal run of speech chunks that a silence chunk has ended, in order, and each
  segment is the run itself; a run that reaches the end of the input stays in the buffer
  and is not emitted. No emitted segment is empty or contains a chunk classified as
  silence, and a sequence without speech chunks emits nothing. The chunks that count are
  those of the accepted size; the buffer is emptied after each segment, as
  \<open>listen_for_wake_word\<close> does.
\<close>

theorem collect_segments_ended_runs:
  "collect_segments env (va\<lparr>audio_buffer := [], speech_detected := False\<rparr>) chunks
     = ended_runs (vad_is_speech env) (filter well_sized chunks) \<and>
   (\<forall>seg\<in>set (collect_segments env (va\<lparr>audio_buffer := [], speech_detected := False\<rparr>) chunks).
      seg \<noteq> [] \<and> (\<forall>d\<in>set seg. vad_is_speech env d)) \<and>
   ((\<forall>d\<in>set chunks. \<not> vad_is_speech env d) \<longrightarrow>
      collect_segments env (va\<lparr>audio_buffer := [], speech_detected := False\<rparr>) chunks = [])"
proof -
  let ?va = "va\<lparr>audio_buffer := [], speech_detected := False\<rparr>"
  let ?P = "vad_is_speech env"
  have ok: "buffer_ok env ?va" by (simp add: buffer_ok_def)
  have eq: "collect_segments env ?va chunks = ended_runs ?P (filter well_sized chunks)"
    using collect_segments_runs [OF ok, of chunks] by simp
  have sub: "set (ended_runs ?P (filter well_sized chunks)) \<subseteq> set (speech_runs ?P (filter well_sized chunks))"
    by (auto simp: ended_runs_def dest: in_set_butlastD)
  have sp: "\<forall>seg\<in>set (collect_segments env ?va chunks). seg \<noteq> [] \<and> (\<forall>d\<in>set seg. ?P d)"
  proof (intro ballI conjI)
    fix seg assume "seg \<in> set (collect_segments env ?va chunks)"
    with eq sub have m: "seg \<in> set (speech_runs ?P (filter well_sized chunks))" by auto
    then show "seg \<noteq> []" using speech_runs_nonempty [of ?P "filter well_sized chunks"] by auto
    fix d assume "d \<in> set seg"
    with m show "?P d" by (rule speech_runs_speech)
  qed
  have none: "(\<forall>d\<in>set chunks. \<not> ?P d) \<longrightarrow> collect_segments env ?va chunks = []"
  proof
    assume "\<forall>d\<in>set chunks. \<not> ?P d"
    then have "speech_runs ?P (filter well_sized chunks) = []"
      by (simp add: speech_runs_Nil_iff)
    with eq show "collect_segments env ?va chunks = []" by (simp add: ended_runs_def)
  qed
  from eq sp none show ?thesis by blast
qed

lemma ended_runs_demo:
  "ended_runs loud (filter well_sized [speech_chunk, speech_chunk, silence_chunk, speech_chunk])
     = [[speech_chunk, speech_chunk]]"
  by (simp add: ended_runs_def chunk_facts)

theorem collect_segments_ended_runs_witness:
  "collect_segments (demo_env ''hello'') (new_voice_activation ''register''\<lparr>audio_buffer := [], speech_detected := False\<rparr>)
      [speech_chunk, speech_chunk, silence_chunk, speech_chunk]
     = [[speech_chunk, speech_chunk]] \<and>
   \<not> vad_is_speech (demo_env ''hello'') silence_chunk \<and>
   collect_segments (demo_env ''hello'') (new_voice_activation ''register''\<lparr>audio_buffer := [], speech_detected := False\<rparr>)
      [silence_chunk, silence_chunk] = []"
proof -
  have a: "collect_segments (demo_env ''hello'') (new_voice_activation ''register''\<lparr>audio_buffer := [], speech_detected := False\<rparr>)
      [speech_chunk, speech_chunk, silence_chunk, speech_chunk] = [[speech_chunk, speech_chunk]]"
    using collect_segments_ended_runs [of "demo_env ''hello''" "new_voice_activation ''register''"
      "[speech_chunk, speech_chunk, silence_chunk, speech_chunk]"] ended_runs_demo
    by (simp only: demo_env_simps)
  have h: "\<forall>d\<in>set [silence_chunk, silence_chunk]. \<not> vad_is_speech (demo_env ''hello'') d"
    by (simp add: demo_env_simps chunk_facts)
  with collect_segments_ended_runs [of "demo_env ''hello''" "new_voice_activation ''register''"
      "[silence_chunk, silence_chunk]"]
  have b: "collect_segments (demo_env ''hello'') (new_voice_activation ''register''\<lparr>audio_buffer := [], speech_detected := False\<rparr>)
      [silence_chunk, silence_chunk] = []" by blast
  have "\<not> vad_is_speech (demo_env ''hello'') silence_chunk"
    by (simp add: demo_env_simps chunk_facts)
  with a b show ?thesis by blast
qed

subsection \<open>The scratch file\<close>

lemma save_audio_keeps: "p \<in> dom fs \<Longrightarrow> p \<in> dom (snd (save_audio env fs seg))"
  by (auto simp: save_audio_def)

lemma save_audio_writes:
  "can_write env \<Longrightarrow> seg \<noteq> [] \<Longrightarrow> scratch_path \<in> dom (snd (save_audio env fs seg))"
  by (simp add: save_audio_def)

lemma listen_loop_keeps:
  "p \<in> dom fs \<Longrightarrow> p \<in> dom (snd (snd (listen_loop env va fs chunks)))"
proof (induction chunks arbitrary: va fs)
  case Nil
  then show ?case by simp
next
  case (Cons d rest)
  obtain va1 r where pr: "process_audio_chunk env va d = (va1, r)"
    by (cases "process_audio_chunk env va d")
  show ?case
  proof (cases r)
    case None
    with pr Cons show ?thesis by simp
  next
    case (Some seg)
    obtain f fs1 where sv: "save_audio env fs seg = (f, fs1)" by (cases "save_audio env fs seg")
    with save_audio_keeps [OF Cons.prems, of env seg] have k: "p \<in> dom fs1" by simp
    note ih = Cons.IH [OF k, of "va1\<lparr>audio_buffer := []\<rparr>"]
    from Some pr sv k ih Cons.IH [OF Cons.prems, of va1] show ?thesis
      by (cases f) (auto simp: Let_def)
  qed
qed

lemma listen_loop_writes:
  "can_write env \<Longrightarrow> collect_segments env va chunks \<noteq> [] \<Longrightarrow>
   scratch_path \<in> dom (snd (snd (listen_loop env va fs chunks)))"
proof (induction chunks arbitrary: va fs)
  case Nil
  then show ?case by simp
next
  case (Cons d rest)
  obtain va1 r where pr: "process_audio_chunk env va d = (va1, r)"
    by (cases "process_audio_chunk env va d")
  show ?case
  proof (cases r)
    case None
    with pr Cons show ?thesis by simp
  next
    case (Some seg)
    show ?thesis
    proof (cases "seg = []")
      case True
      with Some pr Cons show ?thesis by simp
    next
      case False
      obtain f fs1 where sv: "save_audio env fs seg = (f, fs1)" by (cases "save_audio env fs seg")
      with save_audio_writes [OF Cons.prems(1) False, of fs] have k: "scratch_path \<in> dom fs1" by simp
      note keep = listen_loop_keeps [OF k, of env "va1\<lparr>audio_buffer := []\<rparr>" rest]
      from Some pr sv k keep False show ?thesis
        by (cases f) (auto simp: Let_def)
    qed
  qed
qed

lemma flush_keeps:
  "p \<in> dom fs \<Longrightarrow>
   p \<in> dom (snd (snd (case save_audio env fs b of
           (Some audio_file, fs2) \<Rightarrow>
             (let t = transcribe_audio env fs2 audio_file
              in if t \<noteq> [] \<and> py_in w (lower t) then (True, va', fs2) else (False, va, fs2))
         | (None, fs2) \<Rightarrow> (False, va, fs2))))"
  by (auto simp: save_audio_def Let_def)

lemma flush_writes:
  "can_write env \<Longrightarrow> b \<noteq> [] \<Longrightarrow>
   scratch_path \<in> dom (snd (snd (case save_audio env fs b of
           (Some audio_file, fs2) \<Rightarrow>
             (let t = transcribe_audio env fs2 audio_file
              in if t \<noteq> [] \<and> py_in w (lower t) then (True, va', fs2) else (False, va, fs2))
         | (None, fs2) \<Rightarrow> (False, va, fs2))))"
  by (auto simp: save_audio_def Let_def)

lemma listen_for_wake_word_keeps:
  "p \<in> dom fs \<Longrightarrow> p \<in> dom (snd (snd (listen_for_wake_word env va fs chunks)))"
proof -
  assume p: "p \<in> dom fs"
  let ?va0 = "va\<lparr>stream_open := True, audio_buffer := [], speech_detected := False\<rparr>"
  obtain b va1 fs1 where r: "listen_loop env ?va0 fs chunks = (b, va1, fs1)"
    by (cases "listen_loop env ?va0 fs chunks")
  with listen_loop_keeps [OF p, of env ?va0 chunks] have k: "p \<in> dom fs1" by simp
  from p k r flush_keeps [OF k, where env = env and b = "audio_buffer va1" and w = "wake_word va1"
      and va' = "reset_state va1" and va = va1]
  show ?thesis by (cases b) (auto simp: listen_for_wake_word_def)
qed

lemma listen_for_wake_word_writes:
  assumes cw: "can_write env" and st: "stream_open va \<or> can_open_stream env"
    and runs: "speech_runs (vad_is_speech env) (filter well_sized chunks) \<noteq> []"
  shows "scratch_path \<in> dom (snd (snd (listen_for_wake_word env va fs chunks)))"
proof -
  let ?P = "vad_is_speech env"
  let ?xs = "filter well_sized chunks"
  let ?va0 = "va\<lparr>stream_open := True, audio_buffer := [], speech_detected := False\<rparr>"
  have ok: "buffer_ok env ?va0" by (simp add: buffer_ok_def)
  have col: "collect_segments env ?va0 chunks = ended_runs ?P ?xs"
    using collect_segments_runs [OF ok, of chunks] by simp
  obtain b va1 fs1 where r: "listen_loop env ?va0 fs chunks = (b, va1, fs1)"
    by (cases "listen_loop env ?va0 fs chunks")
  show ?thesis
  proof (cases "ended_runs ?P ?xs = []")
    case False
    with col listen_loop_writes [OF cw, of ?va0 chunks fs] r have k: "scratch_path \<in> dom fs1" by simp
    from k r st flush_keeps [OF k, where env = env and b = "audio_buffer va1" and w = "wake_word va1"
      and va' = "reset_state va1" and va = va1]
    show ?thesis by (cases b) (auto simp: listen_for_wake_word_def)
  next
    case True
    with runs have opn: "?xs \<noteq> [] \<and> ?P (last ?xs)" by (auto simp: ended_runs_def split: if_splits)
    from True col listen_loop_hit [of env ?va0 fs chunks] r have nb: "\<not> b" by simp
    with r listen_loop_state [of env ?va0 fs chunks] have va1: "va1 = buffer_after env ?va0 chunks" by simp
    from buffer_after_runs [OF ok, of chunks] va1
    have ok1: "buffer_ok env va1" and b1: "audio_buffer va1 = open_run ?P ?xs" by simp_all
    have "last (speech_runs ?P ?xs) \<noteq> []"
      using runs speech_runs_nonempty [of ?P ?xs] last_in_set by metis
    with b1 opn have bne: "audio_buffer va1 \<noteq> []" by (simp add: open_run_def)
    with ok1 have sd: "speech_detected va1" by (simp add: buffer_ok_def)
    from r st nb sd bne flush_writes [OF cw bne, where fs = fs1 and w = "wake_word va1"
      and va' = "reset_state va1" and va = va1]
    show ?thesis by (auto simp: listen_for_wake_word_def)
  qed
qed

lemma process_silence_chunk:
  "process_audio_chunk (demo_env s) va silence_chunk =
     (if speech_detected va then
        (if length (audio_buffer va) > 0
         then (va\<lparr>speech_detected := False\<rparr>, Some (audio_buffer va))
         else (va\<lparr>speech_detected := False, audio_buffer := []\<rparr>, None))
      else (va, None))"
  using chunk_facts by (simp add: process_audio_chunk_def demo_env_simps well_sized_def)

lemma lower_hello: "lower ''hello'' = ''hello''" "lower ''register'' = ''register''"
  by (simp_all add: lower_def lower_char_def)

text \<open>
  C8, as stated, fails: a segment is saved and transcribed successfully (the service
  returns a text), and when \<open>listen_for_wake_word\<close> returns the scratch file is still on
  disk, holding that segment.
\<close>

theorem scratch_file_kept_counterexample:
  "segment_transcript (demo_env ''hello'') [speech_chunk] = Some ''hello'' \<and>
   snd (snd (listen_for_wake_word (demo_env ''hello'') (new_voice_activation ''register'')
               Map.empty [speech_chunk, silence_chunk])) scratch_path = Some speech_chunk"
  by (simp add: segment_transcript_def listen_for_wake_word_def new_voice_activation_def
      process_speech_chunk process_silence_chunk save_audio_def transcribe_audio_def
      demo_env_simps hears_def lower_hello Let_def)

text \<open>
  C8, amended. The wake-word detector never deletes the scratch audio file, whether the
  transcription succeeded or failed: every file that is on disk when
  \<open>listen_for_wake_word\<close> is called is on disk when it returns, and when the window held
  a speech segment and the file could be written, the scratch file
  \<open>recordings/recorded_audio.wav\<close>, which each segment overwrites, is on disk at the return.
\<close>

theorem scratch_file_never_deleted:
  "(\<forall>p\<in>dom fs. p \<in> dom (snd (snd (listen_for_wake_word env va fs chunks)))) \<and>
   (can_write env \<and> (stream_open va \<or> can_open_stream env) \<and>
    speech_runs (vad_is_speech env) (filter well_sized chunks) \<noteq> []
      \<longrightarrow> scratch_path \<in> dom (snd (snd (listen_for_wake_word env va fs chunks))))"
  using listen_for_wake_word_keeps [of _ fs env va chunks]
    listen_for_wake_word_writes [of env va chunks fs] by blast

theorem scratch_file_never_deleted_witness:
  "''notes.txt'' \<in> dom [''notes.txt'' \<mapsto> [7::nat]] \<and>
   ''notes.txt'' \<in> dom (snd (snd (listen_for_wake_word (demo_env ''hello'')
        (new_voice_activation ''register'') [''notes.txt'' \<mapsto> [7]] [speech_chunk, silence_chunk]))) \<and>
   can_write (demo_env ''hello'') \<and>
   (stream_open (new_voice_activation ''register'') \<or> can_open_stream (demo_env ''hello'')) \<and>
   speech_runs (vad_is_speech (demo_env ''hello'')) (filter well_sized [speech_chunk, silence_chunk]) \<noteq> [] \<and>
   scratch_path \<in> dom (snd (snd (listen_for_wake_word (demo_env ''hello'')
        (new_voice_activation ''register'') [''notes.txt'' \<mapsto> [7]] [speech_chunk, silence_chunk])))"
proof -
  have a: "''notes.txt'' \<in> dom [''notes.txt'' \<mapsto> [7::nat]]" by simp
  have b: "can_write (demo_env ''hello'')"
    "stream_open (new_voice_activation ''register'') \<or> can_open_stream (demo_env ''hello'')"
    by (simp_all add: demo_env_simps)
  have c: "speech_runs (vad_is_speech (demo_env ''hello'')) (filter well_sized [speech_chunk, silence_chunk]) \<noteq> []"
    by (simp add: demo_env_simps chunk_facts)
  from a b c scratch_file_never_deleted [of "[''notes.txt'' \<mapsto> [7]]" "demo_env ''hello''"
      "new_voice_activation ''register''" "[speech_chunk, silence_chunk]"]
  show ?thesis by blast
qed

end
